theory Spec2Isabelle
  imports Main "HOL-Library.Word" "HOL-Library.Sublist"
begin

section \<open>JavaScript strings\<close>

text \<open>
  A JavaScript string is a sequence of UTF-16 code units; \<open>length\<close>, \<open>slice\<close>, \<open>trim\<close> and
  regular expressions without the \<open>u\<close> flag all count code units. ASCII literals of the
  source are written with \<open>js\<close>; the Chinese literals are given by their code units.
\<close>

type_synonym code_unit = "16 word"

type_synonym jsstring = "code_unit list"

definition js :: "string \<Rightarrow> jsstring" where
  "js s = map of_char s"

text \<open>
  \<open>String.prototype.trim\<close> removes WhiteSpace and LineTerminator code units from both
  ends: TAB, LF, VT, FF, CR, SP, NBSP, U+1680, U+2000..U+200A, LS, PS, U+202F, U+205F,
  U+3000 and the BOM U+FEFF.
\<close>

definition isWhiteSpace :: "code_unit \<Rightarrow> bool" where
  "isWhiteSpace c \<longleftrightarrow>
     c \<in> {0x0009, 0x000A, 0x000B, 0x000C, 0x000D, 0x0020, 0x00A0, 0x1680,
          0x2028, 0x2029, 0x202F, 0x205F, 0x3000, 0xFEFF}
     \<or> (0x2000 \<le> c \<and> c \<le> 0x200A)"

definition trim :: "jsstring \<Rightarrow> jsstring" where
  "trim s = rev (dropWhile isWhiteSpace (rev (dropWhile isWhiteSpace s)))"

text \<open>\<open>s.slice(i, j)\<close> for constants \<open>0 \<le> i \<le> j\<close>; both ends are clamped to the length.\<close>

definition slice_str :: "nat \<Rightarrow> nat \<Rightarrow> 'a list \<Rightarrow> 'a list" where
  "slice_str i j s = take (j - i) (drop i s)"

text \<open>
  Number-to-string conversion of a non-negative integer below \<open>10^21\<close> (a millisecond
  timestamp): its decimal digits, most significant first.
\<close>

definition digit_unit :: "nat \<Rightarrow> code_unit" where
  "digit_unit d = of_nat (48 + d)"

function decimal :: "nat \<Rightarrow> jsstring" where
  "decimal n = (if n < 10 then [digit_unit n] else decimal (n div 10) @ [digit_unit (n mod 10)])"
  by pat_completeness auto
termination
  by (relation "measure id") auto

declare decimal.simps [simp del]

text \<open>
  \<open>find_first p s\<close> splits \<open>s\<close> around the leftmost occurrence of \<open>p\<close>, as a regular
  expression search for a literal does: it tries every start position from the left.
\<close>

fun find_first :: "'a list \<Rightarrow> 'a list \<Rightarrow> ('a list \<times> 'a list) option" where
  "find_first p [] = (if p = [] then Some ([], []) else None)"
| "find_first p (x # xs) =
     (if prefix p (x # xs) then Some ([], drop (length p) (x # xs))
      else map_option (\<lambda>(before, after). (x # before, after)) (find_first p xs))"

section \<open>Markdown.tsx: parseContent\<close>

text \<open>
  \<^verbatim>\<open>const thinkMatch = content.match(/<think>([\s\S]*?)<\/think>/);\<close>

  The search tries each start position from the left; at a position where \<open><think>\<close>
  matches, the lazy group grows until \<open></think>\<close> matches, so it ends at the first
  closing tag after the opening one; when there is none the search moves on to the next
  start position. \<open>match_closed\<close> returns the text before the match, group 1 and the text
  after the match. \<open>content.replace\<close> with the same expression (not global) removes that
  first match.

  \<^verbatim>\<open>const streamingMatch = content.match(/<think>([\s\S]*)$/);\<close>

  matches at the leftmost \<open><think>\<close>, and the greedy group takes the rest of the string.
\<close>

definition tag_open :: jsstring where "tag_open = js ''<think>''"

definition tag_close :: jsstring where "tag_close = js ''</think>''"

fun match_closed :: "jsstring \<Rightarrow> (jsstring \<times> jsstring \<times> jsstring) option" where
  "match_closed [] = None"
| "match_closed (c # cs) =
     (case (if prefix tag_open (c # cs)
            then find_first tag_close (drop (length tag_open) (c # cs)) else None) of
        Some (inner, post) \<Rightarrow> Some ([], inner, post)
      | None \<Rightarrow> map_option (\<lambda>(pre, inner, post). (c # pre, inner, post)) (match_closed cs))"

record parsed =
  thinking :: "jsstring option"
  mainContent :: jsstring
  isThinkingStreaming :: bool

definition parseContent :: "jsstring \<Rightarrow> parsed" where
  "parseContent content =
     (case match_closed content of
        Some (pre, inner, post) \<Rightarrow>
          \<lparr>thinking = Some (trim inner), mainContent = trim (pre @ post),
           isThinkingStreaming = False\<rparr>
      | None \<Rightarrow>
          (case find_first tag_open content of
             Some (pre, rest) \<Rightarrow>
               \<lparr>thinking = Some (trim rest), mainContent = [], isThinkingStreaming = True\<rparr>
           | None \<Rightarrow>
               \<lparr>thinking = None, mainContent = content, isThinkingStreaming = False\<rparr>))"

section \<open>useChat.ts: message identifiers\<close>

text \<open>
  \<^verbatim>\<open>function generateId() { return `${Date.now()}-${Math.random().toString(36).slice(2, 9)}`; }\<close>

  The function reads the clock and the random number generator. Both readings are
  inputs of the model: \<open>now\<close> is the value of \<open>Date.now()\<close> and \<open>rnd\<close> is the string
  \<open>Math.random().toString(36)\<close> (such as \<open>0.4fzyo82mvyr\<close>).
\<close>

definition generateId :: "nat \<Rightarrow> jsstring \<Rightarrow> jsstring" where
  "generateId now rnd = decimal now @ js ''-'' @ slice_str 2 9 rnd"

section \<open>useChat.ts: the state of the hook\<close>

text \<open>
  \<open>ChatMessage\<close> and \<open>TabChatState\<close> are the interfaces of the source. \<open>thrown\<close> is a value
  caught by \<open>catch (err)\<close>: either an instance of \<open>Error\<close> with its \<open>name\<close> and \<open>message\<close>,
  or any other value.
\<close>

datatype role = User | Assistant

record ChatMessage =
  msg_id :: jsstring
  role :: role
  content :: jsstring
  createdAt :: nat

record TabChatState =
  tab_messages :: "ChatMessage list"
  tab_error :: "jsstring option"

datatype thrown = ErrorObject (err_name: jsstring) (err_message: jsstring) | NonError

text \<open>
  The provider \<open>aiService\<close> is outside the hook. A call to \<open>aiService.chat\<close> or
  \<open>aiService.summarize\<close> is recorded with the arguments the hook computes; what the provider
  does with it (chunks, a response, a rejection) arrives later as events. The parameters
  \<open>providerConfig\<close> and \<open>enableReasoning\<close> are handed to the provider unchanged and do not
  reach the state, so they are left out.

  A \<open>request\<close> is an invocation of \<open>sendMessage\<close> or \<open>summarizePage\<close> suspended at its
  \<open>await\<close>. It keeps what its closures captured from the render in which the operation was
  created: \<open>tabId\<close> (inside \<open>saveTabState\<close>), \<open>messages\<close> (used by the \<open>catch\<close> of
  \<open>sendMessage\<close>) and \<open>error\<close> (inside \<open>updateMessages\<close>), and its local variable
  \<open>fullContent\<close>.
\<close>

datatype provider_call = ChatCall "ChatMessage list" jsstring | SummarizeCall jsstring

record request =
  call :: provider_call
  cap_tabId :: "int option"
  cap_messages :: "ChatMessage list"
  cap_error :: "jsstring option"
  fullContent :: jsstring

text \<open>
  \<open>hook\<close> holds the module-level map \<open>tabChatStates\<close>, the parameter \<open>tabId\<close>, the four
  React state variables and the ref. Every \<open>AbortController\<close> created so far is numbered in
  creation order; \<open>aborted\<close> is the set of those whose signal is aborted.
  \<open>pending\<close> holds the suspended requests, each under the number of the controller its
  invocation created. When an invocation has ended, the chunk callback it handed to the
  provider still exists and still holds the variable \<open>fullContent\<close>: \<open>settled\<close> keeps
  that variable for every request whose invocation has ended.
\<close>

record hook =
  tabChatStates :: "int \<rightharpoonup> TabChatState"
  tabId :: "int option"
  messages :: "ChatMessage list"
  isLoading :: bool
  error :: "jsstring option"
  streamingContent :: jsstring
  abortControllerRef :: "nat option"
  controllers_created :: nat
  aborted :: "nat set"
  pending :: "nat \<rightharpoonup> request"
  settled :: "nat \<rightharpoonup> jsstring"

text \<open>
  The readings of the clock and of the random number generator taken when a message is
  built: \<open>generateId()\<close> reads both, \<open>createdAt: Date.now()\<close> reads the clock again.
\<close>

record readings =
  id_now :: nat
  id_random :: jsstring
  created_now :: nat

definition new_message :: "readings \<Rightarrow> role \<Rightarrow> jsstring \<Rightarrow> ChatMessage" where
  "new_message rd r c =
     \<lparr>msg_id = generateId (id_now rd) (id_random rd), role = r, content = c,
      createdAt = created_now rd\<rparr>"

text \<open>
  The string constants of the source, by code unit: the fallback of the \<open>catch\<close> in
  \<open>sendMessage\<close> (\<open>AI\<close>, a space and four Chinese characters), the fallback in
  \<open>summarizePage\<close>, the content of the user message that \<open>summarizePage\<close> adds, the
  system prompt and the header that precedes the page context.
\<close>

definition chat_fallback :: jsstring where
  "chat_fallback = [0x41, 0x49, 0x20, 0x54CD, 0x5E94, 0x5931, 0x8D25]"

definition summarize_fallback :: jsstring where
  "summarize_fallback = [0x603B, 0x7ED3, 0x5931, 0x8D25]"

definition summarize_request :: jsstring where
  "summarize_request =
     [0x8BF7, 0x603B, 0x7ED3, 0x8FD9, 0x4E2A, 0x9875, 0x9762, 0x7684, 0x5185, 0x5BB9]"

definition base_prompt :: jsstring where
  "base_prompt =
     [0x4F60, 0x662F, 0x4E00, 0x4E2A, 0x667A, 0x80FD, 0x52A9, 0x624B, 0xFF0C, 0x5E2E,
      0x52A9, 0x7528, 0x6237, 0x7406, 0x89E3, 0x548C, 0x5206, 0x6790, 0x7F51, 0x9875,
      0x5185, 0x5BB9, 0x3002, 0x8BF7, 0x7528, 0x4E2D, 0x6587, 0x56DE, 0x590D, 0x3002]"

definition context_header :: jsstring where
  "context_header =
     [0x0A, 0x0A, 0x5F53, 0x524D, 0x7F51, 0x9875, 0x5185, 0x5BB9, 0x6458, 0x8981, 0xFF1A, 0x0A]"

text \<open>
  \<^verbatim>\<open>if (tabId === null) return { messages: [], error: null };\<close>
  \<^verbatim>\<open>return tabChatStates.get(tabId) || { messages: [], error: null };\<close>

  \<^verbatim>\<open>if (tabId !== null) tabChatStates.set(tabId, { messages: newMessages, error: newError });\<close>
\<close>

definition empty_state :: TabChatState where
  "empty_state = \<lparr>tab_messages = [], tab_error = None\<rparr>"

definition getTabState :: "(int \<rightharpoonup> TabChatState) \<Rightarrow> int option \<Rightarrow> TabChatState" where
  "getTabState m t =
     (case t of
        None \<Rightarrow> empty_state
      | Some k \<Rightarrow> (case m k of None \<Rightarrow> empty_state | Some st \<Rightarrow> st))"

definition saveTabState ::
  "int option \<Rightarrow> ChatMessage list \<Rightarrow> jsstring option \<Rightarrow> (int \<rightharpoonup> TabChatState) \<Rightarrow>
   (int \<rightharpoonup> TabChatState)" where
  "saveTabState t newMessages newError m =
     (case t of
        None \<Rightarrow> m
      | Some k \<Rightarrow> m(k \<mapsto> \<lparr>tab_messages = newMessages, tab_error = newError\<rparr>))"

text \<open>
  \<open>abort_current\<close>: \<^verbatim>\<open>if (abortControllerRef.current) abortControllerRef.current.abort();\<close>
  \<open>signal_aborted\<close>: the test \<^verbatim>\<open>abortControllerRef.current?.signal.aborted\<close>, which reads the
  controller the ref holds when the test runs, and is falsy when the ref is null.
\<close>

definition abort_current :: "hook \<Rightarrow> nat set" where
  "abort_current s =
     (case abortControllerRef s of None \<Rightarrow> aborted s | Some k \<Rightarrow> insert k (aborted s))"

definition signal_aborted :: "hook \<Rightarrow> bool" where
  "signal_aborted s =
     (case abortControllerRef s of None \<Rightarrow> False | Some k \<Rightarrow> k \<in> aborted s)"

definition abort_and_clear :: "hook \<Rightarrow> hook" where
  "abort_and_clear s = s\<lparr>aborted := abort_current s, abortControllerRef := None\<rparr>"

definition abort_and_renew :: "hook \<Rightarrow> hook" where
  "abort_and_renew s =
     s\<lparr>aborted := abort_current s,
       controllers_created := Suc (controllers_created s),
       abortControllerRef := Some (controllers_created s)\<rparr>"

text \<open>
  \<open>updateMessages\<close> applies the updater to the displayed list and stores the result with
  \<open>saveTabState\<close>; the tab and the error it stores under are those of its closure.
\<close>

definition updateMessages ::
  "int option \<Rightarrow> jsstring option \<Rightarrow> (ChatMessage list \<Rightarrow> ChatMessage list) \<Rightarrow> hook \<Rightarrow> hook" where
  "updateMessages t err updater s =
     (let newMessages = updater (messages s)
      in s\<lparr>messages := newMessages,
           tabChatStates := saveTabState t newMessages err (tabChatStates s)\<rparr>)"

text \<open>
  The state after \<open>useChat\<close> is mounted with the map \<open>m\<close> and the tab \<open>t\<close>: the initialisers
  of \<open>useState\<close> read \<open>getTabState()\<close>, the ref is null, and the first run of the effect
  changes nothing.
\<close>

definition mount :: "(int \<rightharpoonup> TabChatState) \<Rightarrow> int option \<Rightarrow> hook" where
  "mount m t =
     \<lparr>tabChatStates = m, tabId = t,
      messages = tab_messages (getTabState m t), isLoading = False,
      error = tab_error (getTabState m t), streamingContent = [],
      abortControllerRef = None, controllers_created = 0, aborted = {},
      pending = Map.empty, settled = Map.empty\<rparr>"

text \<open>
  The effect with dependencies \<open>[tabId, getTabState]\<close>, run when \<open>tabId\<close> has changed to \<open>t\<close>.
\<close>

definition tab_effect :: "int option \<Rightarrow> hook \<Rightarrow> hook" where
  "tab_effect t s =
     (let s1 = abort_and_clear (s\<lparr>tabId := t\<rparr>);
          s2 = s1\<lparr>streamingContent := [], isLoading := False\<rparr>;
          state = getTabState (tabChatStates s2) t
      in s2\<lparr>messages := tab_messages state, error := tab_error state\<rparr>)"

text \<open>
  \<open>sendMessage\<close> up to its \<open>await\<close>. \<open>if (pageContext)\<close> is false for \<open>undefined\<close> and for
  the empty string.
\<close>

definition system_prompt :: "jsstring option \<Rightarrow> jsstring" where
  "system_prompt pageContext =
     (case pageContext of
        None \<Rightarrow> base_prompt
      | Some pc \<Rightarrow>
          if pc = [] then base_prompt
          else base_prompt @ context_header @ slice_str 0 10000 pc)"

definition sendMessage :: "jsstring \<Rightarrow> jsstring option \<Rightarrow> readings \<Rightarrow> hook \<Rightarrow> hook" where
  "sendMessage content' pageContext rd s =
     (if trim content' = [] then s
      else
        let s1 = abort_and_renew s;
            userMessage = new_message rd User (trim content');
            currentMessages = messages s @ [userMessage];
            s2 = updateMessages (tabId s) (error s) (\<lambda>prev. currentMessages) s1;
            s3 = s2\<lparr>isLoading := True, error := None, streamingContent := []\<rparr>
        in s3\<lparr>pending := (pending s3)(controllers_created s \<mapsto>
               \<lparr>call = ChatCall currentMessages (system_prompt pageContext),
                cap_tabId = tabId s, cap_messages = messages s, cap_error = error s,
                fullContent = []\<rparr>)\<rparr>)"

text \<open>\<open>summarizePage\<close> up to its \<open>await\<close>, and \<open>clearMessages\<close>.\<close>

definition summarizePage :: "jsstring \<Rightarrow> readings \<Rightarrow> hook \<Rightarrow> hook" where
  "summarizePage pageContent rd s =
     (let s1 = abort_and_renew s;
          s2 = s1\<lparr>isLoading := True, error := None, streamingContent := []\<rparr>;
          userMessage = new_message rd User summarize_request;
          initialMessages = [userMessage];
          s3 = updateMessages (tabId s) (error s) (\<lambda>prev. initialMessages) s2
      in s3\<lparr>pending := (pending s3)(controllers_created s \<mapsto>
             \<lparr>call = SummarizeCall pageContent,
              cap_tabId = tabId s, cap_messages = messages s, cap_error = error s,
              fullContent = []\<rparr>)\<rparr>)"

definition clearMessages :: "hook \<Rightarrow> hook" where
  "clearMessages s =
     (let s1 = abort_and_clear s;
          s2 = s1\<lparr>messages := [], error := None, streamingContent := [], isLoading := False\<rparr>
      in s2\<lparr>tabChatStates := saveTabState (tabId s) [] None (tabChatStates s2)\<rparr>)"

text \<open>
  The chunk callback of request \<open>r\<close>:
  \<^verbatim>\<open>if (abortControllerRef.current?.signal.aborted) return; fullContent += chunk; setStreamingContent(fullContent);\<close>
  The callback does not test whether its request is still suspended, so a call that the
  provider makes after the promise has settled appends and displays in the same way.
\<close>

definition onChunk :: "nat \<Rightarrow> jsstring \<Rightarrow> hook \<Rightarrow> hook" where
  "onChunk r chunk s =
     (case pending s r of
        Some q \<Rightarrow>
          if signal_aborted s then s
          else
            let fc = fullContent q @ chunk
            in s\<lparr>pending := (pending s)(r \<mapsto> q\<lparr>fullContent := fc\<rparr>),
                 streamingContent := fc\<rparr>
      | None \<Rightarrow>
          (case settled s r of
             None \<Rightarrow> s
           | Some old \<Rightarrow>
               if signal_aborted s then s
               else
                 let fc = old @ chunk
                 in s\<lparr>settled := (settled s)(r \<mapsto> fc), streamingContent := fc\<rparr>))"

text \<open>
  The rest of the \<open>try\<close> block once the provider's promise is fulfilled with
  \<open>response.content = responseContent\<close> (\<open>response.content || fullContent\<close> takes
  \<open>fullContent\<close> when the content is empty). \<open>finish\<close> is the \<open>finally\<close> block together
  with the end of the invocation; it also runs after the early \<open>return\<close>. The request
  leaves \<open>pending\<close> and its accumulator stays in \<open>settled\<close>.
\<close>

definition finish :: "nat \<Rightarrow> hook \<Rightarrow> hook" where
  "finish r s =
     s\<lparr>settled := (case pending s r of
                       None \<Rightarrow> settled s
                     | Some q \<Rightarrow> (settled s)(r \<mapsto> fullContent q)),
       pending := (pending s)(r := None),
       isLoading := False\<rparr>"

definition onResolved :: "nat \<Rightarrow> jsstring \<Rightarrow> readings \<Rightarrow> hook \<Rightarrow> hook" where
  "onResolved r responseContent rd s =
     (case pending s r of
        None \<Rightarrow> s
      | Some q \<Rightarrow>
          if signal_aborted s then finish r s
          else
            let assistantMessage =
                  new_message rd Assistant
                    (if responseContent = [] then fullContent q else responseContent);
                s1 = updateMessages (cap_tabId q) (cap_error q)
                       (\<lambda>prev. prev @ [assistantMessage]) s;
                s2 = s1\<lparr>streamingContent := []\<rparr>
            in finish r s2)"

text \<open>
  The \<open>catch\<close> block once the provider's promise is rejected with \<open>err\<close>:
  \<^verbatim>\<open>if (err instanceof Error && err.name === 'AbortError') return;\<close>
  \<^verbatim>\<open>const message = err instanceof Error ? err.message : FALLBACK;\<close>
  \<^verbatim>\<open>setError(message); saveTabState(messages, message);\<close>  (in \<open>sendMessage\<close>)
  \<^verbatim>\<open>setError(message); saveTabState([], message);\<close>  (in \<open>summarizePage\<close>)
\<close>

definition is_abort_error :: "thrown \<Rightarrow> bool" where
  "is_abort_error err =
     (case err of ErrorObject n m \<Rightarrow> n = js ''AbortError'' | NonError \<Rightarrow> False)"

definition failure_message :: "provider_call \<Rightarrow> thrown \<Rightarrow> jsstring" where
  "failure_message c err =
     (case err of
        ErrorObject n m \<Rightarrow> m
      | NonError \<Rightarrow> (case c of ChatCall ms p \<Rightarrow> chat_fallback
                               | SummarizeCall pc \<Rightarrow> summarize_fallback))"

definition onRejected :: "nat \<Rightarrow> thrown \<Rightarrow> hook \<Rightarrow> hook" where
  "onRejected r err s =
     (case pending s r of
        None \<Rightarrow> s
      | Some q \<Rightarrow>
          if is_abort_error err then finish r s
          else
            let message = failure_message (call q) err;
                s1 = s\<lparr>error := Some message\<rparr>;
                saved = (case call q of ChatCall ms p \<Rightarrow> cap_messages q
                                      | SummarizeCall pc \<Rightarrow> []);
                s2 = s1\<lparr>tabChatStates :=
                          saveTabState (cap_tabId q) saved (Some message) (tabChatStates s1)\<rparr>
            in finish r s2)"

section \<open>Sessions of the hook\<close>

text \<open>
  JavaScript runs each handler, callback and continuation to completion before the next
  one starts, and React has rendered again in between, so the operation invoked next is
  the one created by the latest render: a session is a sequence of events, each applied
  to the state left by the previous one. \<open>TabChange t\<close> is a render with the parameter \<open>tabId = t\<close> followed by its
  effects; the effect runs only if \<open>tabId\<close> differs from the previous render.
  \<open>Chunk\<close>, \<open>Resolved\<close> and \<open>Rejected\<close> are what the provider does to the request with the
  given number. A promise settles once: \<open>Resolved\<close> and \<open>Rejected\<close> do nothing unless the
  request is suspended. \<open>Chunk\<close> does nothing only for a number no request was started
  under.
\<close>

datatype event =
    TabChange "int option"
  | SendMessage jsstring "jsstring option" readings
  | SummarizePage jsstring readings
  | ClearMessages
  | Chunk nat jsstring
  | Resolved nat jsstring readings
  | Rejected nat thrown

fun step :: "event \<Rightarrow> hook \<Rightarrow> hook" where
  "step (TabChange t) s = (if t = tabId s then s else tab_effect t s)"
| "step (SendMessage c pc rd) s = sendMessage c pc rd s"
| "step (SummarizePage pc rd) s = summarizePage pc rd s"
| "step ClearMessages s = clearMessages s"
| "step (Chunk r c) s = onChunk r c s"
| "step (Resolved r c rd) s = onResolved r c rd s"
| "step (Rejected r err) s = onRejected r err s"

fun run :: "event list \<Rightarrow> hook \<Rightarrow> hook" where
  "run [] s = s"
| "run (e # es) s = run es (step e s)"

inductive reachable :: "hook \<Rightarrow> bool" where
  reachable_mount: "reachable (mount m t)"
| reachable_step: "reachable s \<Longrightarrow> reachable (step e s)"

section \<open>Vocabulary of the properties\<close>

text \<open>The value of a decimal numeral, used to read a timestamp back from an identifier.\<close>

definition dec_val :: "jsstring \<Rightarrow> nat" where
  "dec_val s = foldl (\<lambda>a c. 10 * a + (unat c - 48)) 0 s"

text \<open>A pattern whose first element does not occur again in it cannot overlap itself.\<close>

definition head_unique :: "'a list \<Rightarrow> bool" where
  "head_unique p \<longleftrightarrow> p \<noteq> [] \<and> hd p \<notin> set (tl p)"

text \<open>
  The invariant of the cancellation tokens: a controller that is not aborted is the one
  the ref holds, the ref holds only a created controller that is not aborted, and only
  created controllers are aborted.
\<close>

definition token_inv :: "hook \<Rightarrow> bool" where
  "token_inv s \<longleftrightarrow>
     (\<forall>i < controllers_created s. i \<notin> aborted s \<longrightarrow> abortControllerRef s = Some i) \<and>
     (\<forall>k. abortControllerRef s = Some k \<longrightarrow> k < controllers_created s \<and> k \<notin> aborted s) \<and>
     (\<forall>i \<in> aborted s. i < controllers_created s)"

text \<open>
  \<open>cancels e s\<close>: the event reaches the code that aborts the controller in the ref.
  \<open>starts_request e\<close>: the event is an operation that creates a controller and calls the
  provider.
\<close>

fun cancels :: "event \<Rightarrow> hook \<Rightarrow> bool" where
  "cancels (TabChange t) s = (t \<noteq> tabId s)"
| "cancels (SendMessage c pc rd) s = (trim c \<noteq> [])"
| "cancels (SummarizePage pc rd) s = True"
| "cancels ClearMessages s = True"
| "cancels (Chunk r c) s = False"
| "cancels (Resolved r c rd) s = False"
| "cancels (Rejected r err) s = False"

fun starts_request :: "event \<Rightarrow> bool" where
  "starts_request (SendMessage c pc rd) = True"
| "starts_request (SummarizePage pc rd) = True"
| "starts_request e = False"

text \<open>
  \<open>closure_tab e s\<close> is the \<open>tabId\<close> inside the \<open>saveTabState\<close> closure that the code of
  event \<open>e\<close> calls: for the three operations the \<open>tabId\<close> of the render they are invoked
  in, which is the tab the hook is bound to; for a callback or a continuation of a request
  the \<open>tabId\<close> of the render in which that request's operation was invoked, which can
  differ from the tab the hook is bound to when the callback runs. The effect of a tab
  change stores nothing. \<open>invokes_operation e\<close>: the event is the invocation of one of the
  three operations.
\<close>

fun closure_tab :: "event \<Rightarrow> hook \<Rightarrow> int option" where
  "closure_tab (TabChange t) s = None"
| "closure_tab (SendMessage c pc rd) s = tabId s"
| "closure_tab (SummarizePage pc rd) s = tabId s"
| "closure_tab ClearMessages s = tabId s"
| "closure_tab (Chunk r c) s = (case pending s r of None \<Rightarrow> None | Some q \<Rightarrow> cap_tabId q)"
| "closure_tab (Resolved r c rd) s = (case pending s r of None \<Rightarrow> None | Some q \<Rightarrow> cap_tabId q)"
| "closure_tab (Rejected r err) s = (case pending s r of None \<Rightarrow> None | Some q \<Rightarrow> cap_tabId q)"

fun invokes_operation :: "event \<Rightarrow> bool" where
  "invokes_operation (SendMessage c pc rd) = True"
| "invokes_operation (SummarizePage pc rd) = True"
| "invokes_operation ClearMessages = True"
| "invokes_operation e = False"

fun never_bound_to :: "int \<Rightarrow> event list \<Rightarrow> hook \<Rightarrow> bool" where
  "never_bound_to k [] s = True"
| "never_bound_to k (e # es) s =
     ((invokes_operation e \<longrightarrow> tabId s \<noteq> Some k) \<and> never_bound_to k es (step e s))"

definition no_request_of :: "int \<Rightarrow> hook \<Rightarrow> bool" where
  "no_request_of k s \<longleftrightarrow> (\<forall>r q. pending s r = Some q \<longrightarrow> cap_tabId q \<noteq> Some k)"

text \<open>
  The chunks that a session delivers to request \<open>r\<close>, in order of arrival, and the
  invariant that only created controllers number a suspended request.
\<close>

fun chunks_for :: "nat \<Rightarrow> event list \<Rightarrow> jsstring list" where
  "chunks_for r [] = []"
| "chunks_for r (Chunk r' c # es) = (if r' = r then c # chunks_for r es else chunks_for r es)"
| "chunks_for r (e # es) = chunks_for r es"

definition pending_inv :: "hook \<Rightarrow> bool" where
  "pending_inv s \<longleftrightarrow> (\<forall>r q. pending s r = Some q \<longrightarrow> r < controllers_created s)"

section \<open>Example sessions\<close>

definition at_ms :: "nat \<Rightarrow> readings" where
  "at_ms n = \<lparr>id_now = n, id_random = js ''0.k3jd92ma1x'', created_now = n\<rparr>"

definition one_send :: hook where
  "one_send = run [SendMessage (js ''hi'') None (at_ms 1)] (mount Map.empty (Some 1))"

definition two_sends :: hook where
  "two_sends =
     run [SendMessage (js ''a'') None (at_ms 1), SendMessage (js ''b'') None (at_ms 2)]
       (mount Map.empty (Some 1))"

definition switched_away :: hook where
  "switched_away =
     run [SendMessage (js ''a'') None (at_ms 1), TabChange (Some 2)] (mount Map.empty (Some 1))"

definition back_on_failed_tab :: hook where
  "back_on_failed_tab =
     run [SendMessage (js ''x'') None (at_ms 1),
          Rejected 0 (ErrorObject (js ''Error'') (js ''boom'')),
          TabChange (Some 1),
          SendMessage (js ''a'') None (at_ms 2),
          TabChange (Some 2)]
       (mount Map.empty (Some 2))"

definition bound_elsewhere :: hook where
  "bound_elsewhere =
     run [SendMessage (js ''a'') None (at_ms 1),
          TabChange (Some 2),
          SendMessage (js ''x'') None (at_ms 2),
          Resolved 1 (js ''y'') (at_ms 3)]
       (mount Map.empty (Some 1))"

definition bound_to_null :: hook where
  "bound_to_null =
     run [SendMessage (js ''a'') None (at_ms 1), TabChange None] (mount Map.empty (Some 1))"

definition one_summary :: hook where
  "one_summary = run [SummarizePage (js ''page text'') (at_ms 1)] (mount Map.empty (Some 1))"

definition same_ms_a :: readings where
  "same_ms_a = \<lparr>id_now = 1770422400000, id_random = js ''0.k3jd92ma1x'',
                created_now = 1770422400000\<rparr>"

definition same_ms_b :: readings where
  "same_ms_b = \<lparr>id_now = 1770422400000, id_random = js ''0.k3jd92mzq7'',
                created_now = 1770422400000\<rparr>"

definition colliding_session :: hook where
  "colliding_session =
     run [SendMessage (js ''a'') None same_ms_a, Resolved 0 (js ''b'') same_ms_b]
       (mount Map.empty (Some 1))"

lemmas eval_defs = mount_def tab_effect_def sendMessage_def summarizePage_def clearMessages_def
  onChunk_def onResolved_def onRejected_def abort_and_clear_def abort_and_renew_def
  updateMessages_def finish_def getTabState_def saveTabState_def abort_current_def
  signal_aborted_def new_message_def empty_state_def is_abort_error_def failure_message_def
  trim_def isWhiteSpace_def js_def Let_def at_ms_def

lemmas op_defs = tab_effect_def sendMessage_def summarizePage_def clearMessages_def
  onChunk_def onResolved_def onRejected_def abort_and_clear_def abort_and_renew_def
  updateMessages_def finish_def

lemmas session_defs = one_send_def two_sends_def switched_away_def back_on_failed_tab_def
  bound_elsewhere_def bound_to_null_def
  one_summary_def colliding_session_def same_ms_a_def same_ms_b_def

section \<open>Decimal numerals and identifiers\<close>

lemma unat_digit_unit: "d < 10 \<Longrightarrow> unat (digit_unit d) = 48 + d"
proof -
  assume "d < 10"
  then have "(48 + d) mod 2 ^ 16 = 48 + d" by simp
  then show ?thesis
    unfolding digit_unit_def by (simp add: unat_of_nat del: of_nat_add)
qed

lemma dec_val_snoc: "dec_val (s @ [c]) = 10 * dec_val s + (unat c - 48)"
  by (simp add: dec_val_def)

lemma dec_val_decimal: "dec_val (decimal n) = n"
proof (induction n rule: decimal.induct)
  case (1 n)
  show ?case
  proof (cases "n < 10")
    case True
    then show ?thesis
      by (simp add: decimal.simps [of n] dec_val_def unat_digit_unit)
  next
    case False
    with 1 have "dec_val (decimal (n div 10)) = n div 10" by simp
    with False show ?thesis
      by (simp add: decimal.simps [of n] dec_val_snoc unat_digit_unit)
  qed
qed

lemma decimal_inj: "decimal m = decimal n \<Longrightarrow> m = n"
  by (metis dec_val_decimal)

lemma digit_unit_not_hyphen: "d < 10 \<Longrightarrow> digit_unit d \<noteq> 0x2D"
proof
  assume d: "d < 10" and "digit_unit d = 0x2D"
  then have "unat (digit_unit d) = unat (0x2D :: code_unit)" by simp
  with d show False by (simp add: unat_digit_unit)
qed

lemma decimal_no_hyphen: "\<forall>c \<in> set (decimal n). c \<noteq> 0x2D"
proof (induction n rule: decimal.induct)
  case (1 n)
  show ?case
  proof (cases "n < 10")
    case True
    then show ?thesis
      by (simp add: decimal.simps [of n] digit_unit_not_hyphen)
  next
    case False
    with 1 have "\<forall>c \<in> set (decimal (n div 10)). c \<noteq> 0x2D" by simp
    with False show ?thesis
      by (simp add: decimal.simps [of n] digit_unit_not_hyphen)
  qed
qed

lemma takeWhile_decimal: "takeWhile (\<lambda>c. c \<noteq> 0x2D) (decimal n @ 0x2D # s) = decimal n"
  using decimal_no_hyphen [of n] by simp

lemma hyphen_split:
  assumes "decimal m @ 0x2D # s = decimal n @ 0x2D # t"
  shows "m = n \<and> s = t"
proof -
  have "decimal m = decimal n"
    using takeWhile_decimal [of m s] takeWhile_decimal [of n t] assms by simp
  then have "m = n" by (rule decimal_inj)
  with assms show ?thesis by simp
qed

text \<open>
  Two identifiers produced by \<open>generateId\<close> are equal exactly when the two clock
  readings are equal and the two random strings agree on characters 2 to 8.
\<close>

lemma generateId_injective:
  "generateId n1 r1 = generateId n2 r2 \<longleftrightarrow> n1 = n2 \<and> slice_str 2 9 r1 = slice_str 2 9 r2"
  by (auto simp: generateId_def js_def dest: hyphen_split)

text \<open>
  C7: every identifier produced by \<open>generateId\<close> is to be unique, as its own comment in
  the source says; any two distinct message-creation events of a session are to get
  different identifiers. The code does not ensure it. In the session below the user
  message and the assistant message are built in the same millisecond, and the two random
  draws differ but agree on the seven characters that \<open>slice(2, 9)\<close> keeps: the two
  messages get the same identifier.
\<close>

theorem message_ids_collide:
  "map role (messages colliding_session) = [User, Assistant] \<and>
   map msg_id (messages colliding_session) =
     [generateId 1770422400000 (js ''0.k3jd92ma1x''),
      generateId 1770422400000 (js ''0.k3jd92mzq7'')] \<and>
   generateId 1770422400000 (js ''0.k3jd92ma1x'') =
     generateId 1770422400000 (js ''0.k3jd92mzq7'')"
  by (simp add: colliding_session_def same_ms_a_def same_ms_b_def eval_defs generateId_def
      slice_str_def)

section \<open>Searching for a literal\<close>

lemma find_first_None: "find_first p s = None \<longleftrightarrow> \<not> sublist p s"
  by (induction s) (auto simp: sublist_Cons_right)

lemma find_first_Some:
  "p \<noteq> [] \<Longrightarrow> find_first p s = Some (b, a) \<Longrightarrow> s = b @ p @ a \<and> \<not> sublist p b"
proof (induction s arbitrary: b)
  case Nil
  then show ?case by simp
next
  case (Cons x xs)
  show ?case
  proof (cases "prefix p (x # xs)")
    case True
    with Cons.prems have "b = []" "a = drop (length p) (x # xs)" by auto
    with True Cons.prems(1) show ?thesis
      by (metis append_Nil append_take_drop_id prefix_def append_eq_conv_conj sublist_Nil_right)
  next
    case False
    with Cons.prems obtain b' where b': "find_first p xs = Some (b', a)" "b = x # b'"
      by (auto split: prod.splits)
    with Cons.IH [OF Cons.prems(1) b'(1)] have ih: "xs = b' @ p @ a" "\<not> sublist p b'" by auto
    have "\<not> prefix p (x # b')"
    proof
      assume "prefix p (x # b')"
      then have "prefix p (x # b' @ p @ a)" by (metis prefix_prefix append_Cons)
      with False ih show False by simp
    qed
    with ih b' show ?thesis by (simp add: sublist_Cons_right)
  qed
qed

lemma find_first_append:
  "\<exists>pre rest. find_first p (a @ p @ r) = Some (pre, rest) \<and> length pre \<le> length a"
proof (induction a)
  case Nil
  show ?case
  proof (cases "p @ r")
    case Nil
    then show ?thesis by simp
  next
    case (Cons x xs)
    then have "prefix p (x # xs)" by (metis prefixI)
    with Cons show ?thesis by simp
  qed
next
  case (Cons x a)
  then show ?case by auto
qed

lemma prefix_straddle:
  assumes "head_unique p" "prefix p (b @ p @ a)"
  shows "b = [] \<or> prefix p b"
proof (cases "length p \<le> length b")
  case True
  with assms(2) show ?thesis
    by (metis prefix_length_prefix prefixI append.assoc)
next
  case False
  show ?thesis
  proof (rule ccontr)
    assume "\<not> ?thesis"
    then have b: "b \<noteq> []" by simp
    from assms(1) obtain x ps where p: "p = x # ps" "x \<notin> set ps"
      by (cases p) (auto simp: head_unique_def)
    from False b have n: "length b < length p" "0 < length b" by auto
    from assms(2) have "p ! length b = (b @ p @ a) ! length b"
      using n by (metis prefix_def nth_append)
    also have "\<dots> = x" using p by (simp add: nth_append)
    finally have "ps ! (length b - 1) = x" using n p by (simp add: nth_Cons')
    moreover have "length b - 1 < length ps" using n p by (cases b) auto
    ultimately have "x \<in> set ps" by (metis nth_mem)
    with p show False by simp
  qed
qed

lemma find_first_fresh:
  "head_unique p \<Longrightarrow> \<not> sublist p b \<Longrightarrow> find_first p (b @ p @ a) = Some (b, a)"
proof (induction b)
  case Nil
  then show ?case by (cases p) (auto simp: head_unique_def)
next
  case (Cons x b)
  then have "\<not> prefix p ((x # b) @ p @ a)"
    using prefix_straddle [of p "x # b" a] by auto
  moreover from Cons have "\<not> sublist p b" by (auto simp: sublist_Cons_right)
  ultimately show ?case using Cons by simp
qed

lemma dropWhile_all_iff: "(\<forall>x \<in> set (dropWhile P xs). P x) \<longleftrightarrow> (\<forall>x \<in> set xs. P x)"
proof
  assume a: "\<forall>x \<in> set (dropWhile P xs). P x"
  have "dropWhile P xs = []"
  proof (rule ccontr)
    assume n: "dropWhile P xs \<noteq> []"
    then have "\<not> P (hd (dropWhile P xs))" by (rule hd_dropWhile)
    moreover from n have "hd (dropWhile P xs) \<in> set (dropWhile P xs)" by simp
    ultimately show False using a by blast
  qed
  then show "\<forall>x \<in> set xs. P x" by (simp add: dropWhile_eq_Nil_conv)
next
  assume "\<forall>x \<in> set xs. P x"
  then show "\<forall>x \<in> set (dropWhile P xs). P x" by (auto dest: set_dropWhileD)
qed

lemma trim_empty_iff: "trim s = [] \<longleftrightarrow> (\<forall>c \<in> set s. isWhiteSpace c)"
  by (simp add: trim_def dropWhile_eq_Nil_conv dropWhile_all_iff)

section \<open>parseContent\<close>

lemma head_unique_tag_open: "head_unique tag_open"
  by (simp add: head_unique_def tag_open_def js_def)

lemma head_unique_tag_close: "head_unique tag_close"
  by (simp add: head_unique_def tag_close_def js_def)

lemma tag_open_nonempty: "tag_open \<noteq> []"
  using head_unique_tag_open by (simp add: head_unique_def)

lemma tag_close_nonempty: "tag_close \<noteq> []"
  using head_unique_tag_close by (simp add: head_unique_def)

lemma match_closed_Some:
  "match_closed s = Some (pre, inner, post) \<Longrightarrow> s = pre @ tag_open @ inner @ tag_close @ post"
proof (induction s arbitrary: pre)
  case Nil
  then show ?case by simp
next
  case (Cons c cs)
  show ?case
  proof (cases "prefix tag_open (c # cs) \<and>
                find_first tag_close (drop (length tag_open) (c # cs)) \<noteq> None")
    case True
    then obtain i q where f: "find_first tag_close (drop (length tag_open) (c # cs)) = Some (i, q)"
      by auto
    with True Cons.prems have e: "pre = []" "inner = i" "post = q" by auto
    from f have "drop (length tag_open) (c # cs) = i @ tag_close @ q"
      using find_first_Some [OF tag_close_nonempty] by blast
    moreover from True have "c # cs = tag_open @ drop (length tag_open) (c # cs)"
      by (metis append_eq_conv_conj prefix_def)
    ultimately show ?thesis using e by simp
  next
    case False
    with Cons.prems obtain pre' where
      "match_closed cs = Some (pre', inner, post)" "pre = c # pre'"
      by (auto split: if_splits option.splits prod.splits)
    with Cons.IH show ?thesis by simp
  qed
qed

lemma match_closed_fresh:
  "\<not> sublist tag_open pre \<Longrightarrow> \<not> sublist tag_close inner \<Longrightarrow>
   match_closed (pre @ tag_open @ inner @ tag_close @ post) = Some (pre, inner, post)"
proof (induction pre)
  case Nil
  have c: "find_first tag_close (inner @ tag_close @ post) = Some (inner, post)"
    using Nil by (simp add: find_first_fresh head_unique_tag_close)
  define t where "t = tag_open @ inner @ tag_close @ post"
  obtain x xs where t: "t = x # xs"
    using tag_open_nonempty by (cases t) (auto simp: t_def)
  have "prefix tag_open (x # xs)" "drop (length tag_open) (x # xs) = inner @ tag_close @ post"
    using t by (simp_all add: t_def [symmetric] flip: t) (simp_all add: t_def)
  with c have "match_closed (x # xs) = Some ([], inner, post)" by simp
  then show ?case by (simp add: t_def flip: t)
next
  case (Cons x pre)
  then have "\<not> prefix tag_open ((x # pre) @ tag_open @ inner @ tag_close @ post)"
    using prefix_straddle [OF head_unique_tag_open, of "x # pre"] by auto
  moreover from Cons have "\<not> sublist tag_open pre" by (auto simp: sublist_Cons_right)
  ultimately show ?case using Cons by simp
qed

lemma closed_block_canonical:
  assumes "s = a @ tag_open @ b @ tag_close @ c"
  shows "\<exists>pre inner post. s = pre @ tag_open @ inner @ tag_close @ post \<and>
           \<not> sublist tag_open pre \<and> \<not> sublist tag_close inner"
proof -
  obtain pre rest where f: "find_first tag_open s = Some (pre, rest)" "length pre \<le> length a"
    using find_first_append [of tag_open a "b @ tag_close @ c"] assms by auto
  then have s: "s = pre @ tag_open @ rest" and pre: "\<not> sublist tag_open pre"
    using find_first_Some [OF tag_open_nonempty] by blast+
  have "rest = drop (length pre + length tag_open) s" using s by simp
  also have "\<dots> = drop (length pre + length tag_open) (a @ tag_open) @ b @ tag_close @ c"
    using f(2) assms by simp
  finally have "sublist tag_close rest"
    by (metis sublist_appendI append.assoc)
  then obtain inner post where "find_first tag_close rest = Some (inner, post)"
    using find_first_None [of tag_close rest] by auto
  then have "rest = inner @ tag_close @ post" "\<not> sublist tag_close inner"
    using find_first_Some [OF tag_close_nonempty] by blast+
  with s pre show ?thesis by blast
qed

lemma parseContent_fresh:
  "\<not> sublist tag_open pre \<Longrightarrow> \<not> sublist tag_close inner \<Longrightarrow>
   parseContent (pre @ tag_open @ inner @ tag_close @ post) =
     \<lparr>thinking = Some (trim inner), mainContent = trim (pre @ post),
      isThinkingStreaming = False\<rparr>"
  by (simp add: parseContent_def match_closed_fresh)

lemma closed_block_iff:
  "(\<exists>a b c. s = a @ tag_open @ b @ tag_close @ c) \<longleftrightarrow> match_closed s \<noteq> None"
proof
  assume "\<exists>a b c. s = a @ tag_open @ b @ tag_close @ c"
  then obtain pre inner post where "s = pre @ tag_open @ inner @ tag_close @ post"
    "\<not> sublist tag_open pre" "\<not> sublist tag_close inner"
    using closed_block_canonical by blast
  then show "match_closed s \<noteq> None" by (simp add: match_closed_fresh)
next
  assume "match_closed s \<noteq> None"
  then show "\<exists>a b c. s = a @ tag_open @ b @ tag_close @ c"
    using match_closed_Some by fastforce
qed

lemma parseContent_examples:
  "parseContent (js ''x <think> y </think> z <think>w</think>'') =
     \<lparr>thinking = Some (js ''y''), mainContent = js ''x  z <think>w</think>'',
      isThinkingStreaming = False\<rparr>"
  "parseContent (js ''x <think> y'') =
     \<lparr>thinking = Some (js ''y''), mainContent = [], isThinkingStreaming = True\<rparr>"
  by (simp_all add: parseContent_def js_def tag_open_def tag_close_def trim_def isWhiteSpace_def)

text \<open>
  C10: a string that contains a closed \<open><think>\<close>...\<open></think>\<close> block splits around its
  first such block (the opening tag does not occur before it, the closing tag does not
  occur inside it), and \<open>parseContent\<close> returns the trimmed inner text as the thinking
  part and the trimmed rest, with that block removed, as the main content, not streaming.
  A string that contains \<open><think>\<close> but no closed block gives the empty main content,
  whatever precedes the first \<open><think>\<close>, the trimmed text after it as the thinking part,
  and is marked streaming. A string without \<open><think>\<close> is returned unchanged as the main
  content, with no thinking part.
\<close>

theorem parseContent_think:
  "((\<exists>a b c. s = a @ tag_open @ b @ tag_close @ c) \<longrightarrow>
      (\<exists>pre inner post. s = pre @ tag_open @ inner @ tag_close @ post \<and>
         \<not> sublist tag_open pre \<and> \<not> sublist tag_close inner \<and>
         parseContent s = \<lparr>thinking = Some (trim inner), mainContent = trim (pre @ post),
                           isThinkingStreaming = False\<rparr>)) \<and>
   (sublist tag_open s \<and> \<not> (\<exists>a b c. s = a @ tag_open @ b @ tag_close @ c) \<longrightarrow>
      (\<exists>pre rest. s = pre @ tag_open @ rest \<and> \<not> sublist tag_open pre \<and>
         parseContent s = \<lparr>thinking = Some (trim rest), mainContent = [],
                           isThinkingStreaming = True\<rparr>)) \<and>
   (\<not> sublist tag_open s \<longrightarrow>
      parseContent s = \<lparr>thinking = None, mainContent = s, isThinkingStreaming = False\<rparr>)"
proof (intro conjI impI)
  assume "\<exists>a b c. s = a @ tag_open @ b @ tag_close @ c"
  then obtain pre inner post where d: "s = pre @ tag_open @ inner @ tag_close @ post"
    "\<not> sublist tag_open pre" "\<not> sublist tag_close inner"
    using closed_block_canonical by blast
  then have "parseContent s = \<lparr>thinking = Some (trim inner), mainContent = trim (pre @ post),
                           isThinkingStreaming = False\<rparr>"
    using parseContent_fresh by simp
  with d show "\<exists>pre inner post. s = pre @ tag_open @ inner @ tag_close @ post \<and>
         \<not> sublist tag_open pre \<and> \<not> sublist tag_close inner \<and>
         parseContent s = \<lparr>thinking = Some (trim inner), mainContent = trim (pre @ post),
                           isThinkingStreaming = False\<rparr>"
    by blast
next
  assume a: "sublist tag_open s \<and> \<not> (\<exists>a b c. s = a @ tag_open @ b @ tag_close @ c)"
  then have m: "match_closed s = None"
    using closed_block_iff [of s] by (cases "match_closed s") auto
  from a obtain pre rest where f: "find_first tag_open s = Some (pre, rest)"
    using find_first_None [of tag_open s] by auto
  then have "s = pre @ tag_open @ rest" "\<not> sublist tag_open pre"
    using find_first_Some [OF tag_open_nonempty] by blast+
  moreover have "parseContent s = \<lparr>thinking = Some (trim rest), mainContent = [],
                           isThinkingStreaming = True\<rparr>"
    using m f by (simp add: parseContent_def)
  ultimately show "\<exists>pre rest. s = pre @ tag_open @ rest \<and> \<not> sublist tag_open pre \<and>
         parseContent s = \<lparr>thinking = Some (trim rest), mainContent = [],
                           isThinkingStreaming = True\<rparr>"
    by blast
next
  assume a: "\<not> sublist tag_open s"
  then have f: "find_first tag_open s = None" by (simp add: find_first_None)
  have "match_closed s = None"
  proof (rule ccontr)
    assume "match_closed s \<noteq> None"
    then obtain pre inner post where "s = pre @ tag_open @ inner @ tag_close @ post"
      using match_closed_Some by fastforce
    with a show False by simp
  qed
  with f show "parseContent s = \<lparr>thinking = None, mainContent = s, isThinkingStreaming = False\<rparr>"
    by (simp add: parseContent_def)
qed

theorem parseContent_think_witness:
  "(\<exists>a b c. js ''x <think> y </think> z'' = a @ tag_open @ b @ tag_close @ c) \<and>
   (\<exists>pre inner post. js ''x <think> y </think> z'' = pre @ tag_open @ inner @ tag_close @ post \<and>
      \<not> sublist tag_open pre \<and> \<not> sublist tag_close inner \<and>
      parseContent (js ''x <think> y </think> z'') =
        \<lparr>thinking = Some (trim inner), mainContent = trim (pre @ post),
         isThinkingStreaming = False\<rparr>) \<and>
   sublist tag_open (js ''x <think> y'') \<and>
   \<not> (\<exists>a b c. js ''x <think> y'' = a @ tag_open @ b @ tag_close @ c) \<and>
   (\<exists>pre rest. js ''x <think> y'' = pre @ tag_open @ rest \<and> \<not> sublist tag_open pre \<and>
      parseContent (js ''x <think> y'') =
        \<lparr>thinking = Some (trim rest), mainContent = [], isThinkingStreaming = True\<rparr>) \<and>
   \<not> sublist tag_open (js ''xyz'') \<and>
   parseContent (js ''xyz'') =
     \<lparr>thinking = None, mainContent = js ''xyz'', isThinkingStreaming = False\<rparr>"
proof -
  have h1: "\<exists>a b c. js ''x <think> y </think> z'' = a @ tag_open @ b @ tag_close @ c"
    by (rule exI [of _ "js ''x ''"], rule exI [of _ "js '' y ''"], rule exI [of _ "js '' z''"])
       (simp add: js_def tag_open_def tag_close_def)
  have h2: "sublist tag_open (js ''x <think> y'')"
    by (simp add: js_def tag_open_def sublist_Cons_right)
  have h3: "\<not> (\<exists>a b c. js ''x <think> y'' = a @ tag_open @ b @ tag_close @ c)"
    unfolding closed_block_iff by (simp add: js_def tag_open_def tag_close_def)
  have h4: "\<not> sublist tag_open (js ''xyz'')"
    by (simp add: js_def tag_open_def sublist_Cons_right)
  show ?thesis
    using h1 h2 h3 h4
      parseContent_think [of "js ''x <think> y </think> z''"]
      parseContent_think [of "js ''x <think> y''"]
      parseContent_think [of "js ''xyz''"]
    by blast
qed

section \<open>The cancellation token\<close>

lemma reachable_run: "reachable s \<Longrightarrow> reachable (run es s)"
  by (induction es arbitrary: s) (simp_all add: reachable_step)

lemma reachable_sessions:
  "reachable one_send" "reachable two_sends" "reachable switched_away"
  "reachable back_on_failed_tab" "reachable one_summary" "reachable colliding_session"
  "reachable bound_elsewhere" "reachable bound_to_null"
  unfolding session_defs by (rule reachable_run, rule reachable_mount)+

lemma token_inv_mount: "token_inv (mount m t)"
  by (simp add: token_inv_def mount_def)

lemma step_ref:
  "abortControllerRef (step e s) =
     (if cancels e s
      then (if starts_request e then Some (controllers_created s) else None)
      else abortControllerRef s)"
  by (cases e) (simp_all add: op_defs Let_def split: option.splits)

lemma step_created:
  "controllers_created (step e s) =
     (if cancels e s \<and> starts_request e then Suc (controllers_created s)
      else controllers_created s)"
  by (cases e) (simp_all add: op_defs Let_def split: option.splits)

lemma step_aborted:
  "aborted (step e s) = (if cancels e s then abort_current s else aborted s)"
  by (cases e) (simp_all add: op_defs abort_current_def Let_def split: option.splits)

lemma token_inv_live: "token_inv s \<Longrightarrow> i < controllers_created s \<Longrightarrow> i \<notin> aborted s \<Longrightarrow>
    abortControllerRef s = Some i"
  unfolding token_inv_def by blast

lemma token_inv_ref: "token_inv s \<Longrightarrow> abortControllerRef s = Some k \<Longrightarrow>
    k < controllers_created s \<and> k \<notin> aborted s"
  unfolding token_inv_def by blast

lemma token_inv_bound: "token_inv s \<Longrightarrow> i \<in> aborted s \<Longrightarrow> i < controllers_created s"
  unfolding token_inv_def by blast

lemma token_inv_abort_current:
  assumes "token_inv s" "i < controllers_created s"
  shows "i \<in> abort_current s"
proof (cases "abortControllerRef s")
  case None
  with token_inv_live [OF assms] show ?thesis
    by (cases "i \<in> aborted s") (simp_all add: abort_current_def)
next
  case (Some k)
  with token_inv_live [OF assms] show ?thesis
    by (cases "i \<in> aborted s") (simp_all add: abort_current_def)
qed

lemma abort_current_bound:
  assumes "token_inv s" "i \<in> abort_current s"
  shows "i < controllers_created s"
proof (cases "abortControllerRef s")
  case None
  with assms show ?thesis by (simp add: abort_current_def token_inv_bound)
next
  case (Some k)
  with assms token_inv_ref [OF assms(1) Some] show ?thesis
    by (auto simp: abort_current_def token_inv_bound)
qed

lemma fresh_not_aborted: "token_inv s \<Longrightarrow> controllers_created s \<notin> abort_current s"
  using abort_current_bound [of s "controllers_created s"] by blast

lemma token_invI:
  assumes "\<And>i. i < controllers_created s \<Longrightarrow> i \<notin> aborted s \<Longrightarrow> abortControllerRef s = Some i"
    and "\<And>k. abortControllerRef s = Some k \<Longrightarrow> k < controllers_created s \<and> k \<notin> aborted s"
    and "\<And>i. i \<in> aborted s \<Longrightarrow> i < controllers_created s"
  shows "token_inv s"
  unfolding token_inv_def using assms by blast

lemma token_inv_step: "token_inv s \<Longrightarrow> token_inv (step e s)"
proof -
  assume inv: "token_inv s"
  show ?thesis
  proof (cases "cancels e s")
    case False
    then have "abortControllerRef (step e s) = abortControllerRef s"
      "controllers_created (step e s) = controllers_created s"
      "aborted (step e s) = aborted s"
      by (simp_all add: step_ref step_created step_aborted)
    then have "token_inv (step e s) = token_inv s"
      unfolding token_inv_def by presburger
    with inv show ?thesis by simp
  next
    case True
    note c = this
    show ?thesis
    proof (cases "starts_request e")
      case True
      with c have f: "abortControllerRef (step e s) = Some (controllers_created s)"
        "controllers_created (step e s) = Suc (controllers_created s)"
        "aborted (step e s) = abort_current s"
        by (simp_all add: step_ref step_created step_aborted)
      show ?thesis
      proof (rule token_invI)
        fix i
        assume "i < controllers_created (step e s)" "i \<notin> aborted (step e s)"
        then have "i < Suc (controllers_created s)" "i \<notin> abort_current s"
          by (simp_all add: f)
        then have "i = controllers_created s"
          using token_inv_abort_current [OF inv, of i] by (cases "i = controllers_created s") auto
        then show "abortControllerRef (step e s) = Some i" by (simp add: f)
      next
        fix k
        assume "abortControllerRef (step e s) = Some k"
        then have "k = controllers_created s" by (simp add: f)
        then show "k < controllers_created (step e s) \<and> k \<notin> aborted (step e s)"
          using fresh_not_aborted [OF inv] by (simp add: f)
      next
        fix i
        assume "i \<in> aborted (step e s)"
        then have "i < controllers_created s"
          using abort_current_bound [OF inv, of i] by (simp add: f)
        then show "i < controllers_created (step e s)" by (simp add: f)
      qed
    next
      case False
      with c have f: "abortControllerRef (step e s) = None"
        "controllers_created (step e s) = controllers_created s"
        "aborted (step e s) = abort_current s"
        by (simp_all add: step_ref step_created step_aborted)
      show ?thesis
      proof (rule token_invI)
        fix i
        assume "i < controllers_created (step e s)" "i \<notin> aborted (step e s)"
        then have "i < controllers_created s" "i \<notin> abort_current s" by (simp_all add: f)
        then have False using token_inv_abort_current [OF inv, of i] by simp
        then show "abortControllerRef (step e s) = Some i" ..
      next
        fix k
        assume "abortControllerRef (step e s) = Some k"
        then show "k < controllers_created (step e s) \<and> k \<notin> aborted (step e s)"
          by (simp add: f)
      next
        fix i
        assume "i \<in> aborted (step e s)"
        then show "i < controllers_created (step e s)"
          using abort_current_bound [OF inv, of i] by (simp add: f)
      qed
    qed
  qed
qed

lemma reachable_token_inv: "reachable s \<Longrightarrow> token_inv s"
  by (induction rule: reachable.induct) (simp_all add: token_inv_mount token_inv_step)

text \<open>
  Between two events the ref never holds an aborted controller: every piece of code that
  aborts the controller replaces it or clears the ref before it returns. So the test
  \<open>abortControllerRef.current?.signal.aborted\<close> is false whenever a callback or a
  continuation evaluates it.
\<close>

lemma guard_never_fires: "reachable s \<Longrightarrow> \<not> signal_aborted s"
proof (cases "abortControllerRef s")
  case None
  then show ?thesis by (simp add: signal_aborted_def)
next
  case (Some k)
  assume "reachable s"
  then have "token_inv s" by (rule reachable_token_inv)
  from token_inv_ref [OF this Some] Some show ?thesis by (simp add: signal_aborted_def)
qed

lemma cancels_aborts_all:
  assumes "token_inv s" "cancels e s" "i < controllers_created s"
  shows "i \<in> aborted (step e s)"
  using assms(2) token_inv_abort_current [OF assms(1) assms(3)] by (simp add: step_aborted)

lemma cancels_new_token:
  assumes "token_inv s" "cancels e s"
  shows "if starts_request e
         then controllers_created (step e s) = Suc (controllers_created s) \<and>
              abortControllerRef (step e s) = Some (controllers_created s) \<and>
              controllers_created s \<notin> aborted (step e s)
         else controllers_created (step e s) = controllers_created s \<and>
              abortControllerRef (step e s) = None"
  using assms(2) fresh_not_aborted [OF assms(1)]
  by (simp add: step_ref step_created step_aborted)

text \<open>
  C2, as stated: whenever \<open>sendMessage\<close> begins, the previously created token is aborted.
  This fails for blank input: \<open>sendMessage\<close> returns at \<open>if (!content.trim()) return\<close>,
  before the code that aborts, so the token of the request in flight stays live.
\<close>

theorem blank_send_keeps_token:
  "0 < controllers_created one_send \<and>
   0 \<notin> aborted (step (SendMessage (js ''  '') None (at_ms 2)) one_send)"
  by (simp add: one_send_def eval_defs)

text \<open>
  C2, amended: in every reachable state at most one created token is not aborted; and
  whenever \<open>sendMessage\<close> begins with content that is not blank, \<open>summarizePage\<close> begins,
  the bound tab changes or \<open>clearMessages\<close> runs, every token created before is aborted
  afterwards, and either exactly one new token has been created, which the ref holds and
  which is not aborted (the two operations that start a request), or none has and the
  ref is null.
\<close>

theorem single_token:
  assumes "reachable s"
  shows "(\<forall>i < controllers_created s. \<forall>j < controllers_created s.
            i \<notin> aborted s \<longrightarrow> j \<notin> aborted s \<longrightarrow> i = j) \<and>
         (\<forall>e. cancels e s \<longrightarrow>
            (\<forall>i < controllers_created s. i \<in> aborted (step e s)) \<and>
            (if starts_request e
             then controllers_created (step e s) = Suc (controllers_created s) \<and>
                  abortControllerRef (step e s) = Some (controllers_created s) \<and>
                  controllers_created s \<notin> aborted (step e s)
             else controllers_created (step e s) = controllers_created s \<and>
                  abortControllerRef (step e s) = None))"
proof -
  have inv: "token_inv s" using assms by (rule reachable_token_inv)
  have one: "\<forall>i < controllers_created s. \<forall>j < controllers_created s.
            i \<notin> aborted s \<longrightarrow> j \<notin> aborted s \<longrightarrow> i = j"
  proof (intro allI impI)
    fix i j
    assume "i < controllers_created s" "j < controllers_created s"
      "i \<notin> aborted s" "j \<notin> aborted s"
    then have "abortControllerRef s = Some i" "abortControllerRef s = Some j"
      using token_inv_live [OF inv] by blast+
    then show "i = j" by simp
  qed
  have two: "\<forall>e. cancels e s \<longrightarrow>
            (\<forall>i < controllers_created s. i \<in> aborted (step e s)) \<and>
            (if starts_request e
             then controllers_created (step e s) = Suc (controllers_created s) \<and>
                  abortControllerRef (step e s) = Some (controllers_created s) \<and>
                  controllers_created s \<notin> aborted (step e s)
             else controllers_created (step e s) = controllers_created s \<and>
                  abortControllerRef (step e s) = None)"
  proof (intro allI impI conjI)
    fix e i
    assume "cancels e s" "i < controllers_created s"
    then show "i \<in> aborted (step e s)" by (rule cancels_aborts_all [OF inv])
  next
    fix e
    assume "cancels e s"
    then show "if starts_request e
             then controllers_created (step e s) = Suc (controllers_created s) \<and>
                  abortControllerRef (step e s) = Some (controllers_created s) \<and>
                  controllers_created s \<notin> aborted (step e s)
             else controllers_created (step e s) = controllers_created s \<and>
                  abortControllerRef (step e s) = None"
      by (rule cancels_new_token [OF inv])
  qed
  from one two show ?thesis ..
qed

theorem single_token_witness:
  "reachable two_sends \<and>
   (0 \<in> aborted two_sends \<and> 1 \<notin> aborted two_sends \<and> controllers_created two_sends = 2) \<and>
   cancels ClearMessages two_sends \<and>
   1 \<in> aborted (step ClearMessages two_sends) \<and>
   abortControllerRef (step ClearMessages two_sends) = None \<and>
   cancels (SendMessage (js ''c'') None (at_ms 3)) two_sends \<and>
   1 \<in> aborted (step (SendMessage (js ''c'') None (at_ms 3)) two_sends) \<and>
   abortControllerRef (step (SendMessage (js ''c'') None (at_ms 3)) two_sends) = Some 2 \<and>
   2 \<notin> aborted (step (SendMessage (js ''c'') None (at_ms 3)) two_sends)"
proof -
  have r: "reachable two_sends" by (rule reachable_sessions)
  have e: "0 \<in> aborted two_sends \<and> 1 \<notin> aborted two_sends \<and> controllers_created two_sends = 2"
    by (simp add: two_sends_def eval_defs)
  have c1: "cancels ClearMessages two_sends" by simp
  have c2: "cancels (SendMessage (js ''c'') None (at_ms 3)) two_sends"
    by (simp add: eval_defs)
  from single_token [OF r] have
    a: "\<And>e. cancels e two_sends \<Longrightarrow>
          (\<forall>i < controllers_created two_sends. i \<in> aborted (step e two_sends)) \<and>
          (if starts_request e
             then controllers_created (step e two_sends) = Suc (controllers_created two_sends) \<and>
                  abortControllerRef (step e two_sends) = Some (controllers_created two_sends) \<and>
                  controllers_created two_sends \<notin> aborted (step e two_sends)
             else controllers_created (step e two_sends) = controllers_created two_sends \<and>
                  abortControllerRef (step e two_sends) = None)"
    by blast
  from a [OF c1] a [OF c2] e r c1 c2 show ?thesis by simp
qed

section \<open>Streamed chunks and late responses\<close>

lemma chunks_keep_request:
  "pending s r = Some q \<Longrightarrow>
   (\<exists>fc. pending (run (map (Chunk r) cs) s) r = Some (q\<lparr>fullContent := fc\<rparr>)) \<and>
   messages (run (map (Chunk r) cs) s) = messages s \<and>
   tabChatStates (run (map (Chunk r) cs) s) = tabChatStates s \<and>
   error (run (map (Chunk r) cs) s) = error s"
proof (induction cs arbitrary: s q)
  case Nil
  have "q = q\<lparr>fullContent := fullContent q\<rparr>" by simp
  with Nil show ?case by (metis list.simps(8) run.simps(1))
next
  case (Cons c cs)
  let ?s = "step (Chunk r c) s"
  have "\<exists>fc. pending ?s r = Some (q\<lparr>fullContent := fc\<rparr>)"
  proof (cases "signal_aborted s")
    case True
    with Cons.prems have "pending ?s r = Some (q\<lparr>fullContent := fullContent q\<rparr>)"
      by (simp add: op_defs)
    then show ?thesis ..
  next
    case False
    with Cons.prems have "pending ?s r = Some (q\<lparr>fullContent := fullContent q @ c\<rparr>)"
      by (simp add: op_defs Let_def)
    then show ?thesis ..
  qed
  then obtain fc where p: "pending ?s r = Some (q\<lparr>fullContent := fc\<rparr>)" ..
  have f: "messages ?s = messages s" "tabChatStates ?s = tabChatStates s" "error ?s = error s"
    using Cons.prems by (simp_all add: op_defs Let_def)
  from Cons.IH [OF p] f show ?case by auto
qed

text \<open>
  Chunks delivered to a suspended request accumulate in arrival order, and the streaming
  content is the accumulator after each of them. This holds for every request, whether
  its own token is aborted or not, because the test in the callback never fires.
\<close>

lemma chunks_accumulate:
  "reachable s \<Longrightarrow> pending s r = Some q \<Longrightarrow>
   pending (run (map (Chunk r) cs) s) r = Some (q\<lparr>fullContent := fullContent q @ concat cs\<rparr>) \<and>
   (cs \<noteq> [] \<longrightarrow> streamingContent (run (map (Chunk r) cs) s) = fullContent q @ concat cs)"
proof (induction cs arbitrary: s q)
  case Nil
  then show ?case by simp
next
  case (Cons c cs)
  let ?s = "step (Chunk r c) s"
  let ?q = "q\<lparr>fullContent := fullContent q @ c\<rparr>"
  have g: "\<not> signal_aborted s" using Cons.prems(1) by (rule guard_never_fires)
  with Cons.prems(2) have p: "pending ?s r = Some ?q" and sc: "streamingContent ?s = fullContent q @ c"
    by (simp_all add: op_defs Let_def)
  have r: "reachable ?s" using Cons.prems(1) by (rule reachable_step)
  from Cons.IH [OF r p] have
    1: "pending (run (map (Chunk r) cs) ?s) r = Some (?q\<lparr>fullContent := fullContent ?q @ concat cs\<rparr>)"
    and 2: "cs \<noteq> [] \<longrightarrow> streamingContent (run (map (Chunk r) cs) ?s) = fullContent ?q @ concat cs"
    by simp_all
  show ?case
  proof (cases "cs = []")
    case True
    with p sc show ?thesis by simp
  next
    case False
    with 1 2 show ?thesis by simp
  qed
qed

lemma pending_inv_mount: "pending_inv (mount m t)"
  by (simp add: pending_inv_def mount_def)

lemma step_pending_cases:
  "pending (step e s) r = pending s r \<or>
   pending (step e s) r = None \<or>
   (cancels e s \<and> starts_request e \<and> r = controllers_created s) \<or>
   (\<exists>q c. e = Chunk r c \<and> pending s r = Some q \<and>
      pending (step e s) r = Some (q\<lparr>fullContent := fullContent q @ c\<rparr>))"
  by (cases e) (auto simp: op_defs Let_def split: option.splits)

lemma pending_inv_step:
  assumes "pending_inv s"
  shows "pending_inv (step e s)"
  unfolding pending_inv_def
proof (intro allI impI)
  fix r q
  assume p: "pending (step e s) r = Some q"
  have c: "controllers_created s \<le> controllers_created (step e s)"
    by (simp add: step_created)
  from step_pending_cases [of e s r] p
  have "(\<exists>q'. pending s r = Some q') \<or>
        (cancels e s \<and> starts_request e \<and> r = controllers_created s)"
    by (elim disjE) auto
  then show "r < controllers_created (step e s)"
  proof
    assume "\<exists>q'. pending s r = Some q'"
    with assms have "r < controllers_created s" unfolding pending_inv_def by blast
    with c show ?thesis by simp
  next
    assume "cancels e s \<and> starts_request e \<and> r = controllers_created s"
    then show ?thesis by (simp add: step_created)
  qed
qed

lemma reachable_pending_inv: "reachable s \<Longrightarrow> pending_inv s"
  by (induction rule: reachable.induct) (simp_all add: pending_inv_mount pending_inv_step)

lemma finished_stays_finished:
  assumes "r < controllers_created s" "pending s r = None"
  shows "pending (run es s) r = None"
  using assms
proof (induction es arbitrary: s)
  case Nil
  then show ?case by simp
next
  case (Cons e es)
  have "pending (step e s) r = None"
    using step_pending_cases [of e s r] Cons.prems by auto
  moreover have "r < controllers_created (step e s)"
    using Cons.prems(1) by (simp add: step_created)
  ultimately show ?case using Cons.IH by simp
qed

lemma accumulator_step:
  assumes "reachable s" "pending s r = Some q" "pending (step e s) r = Some q'"
  shows "q' = q\<lparr>fullContent := fullContent q @ concat (chunks_for r [e])\<rparr>"
proof -
  have b: "r < controllers_created s"
    using reachable_pending_inv [OF assms(1)] assms(2) unfolding pending_inv_def by blast
  have g: "\<not> signal_aborted s" using assms(1) by (rule guard_never_fires)
  show ?thesis
  proof (cases e)
    case (Chunk r' c)
    with assms(2,3) g show ?thesis
      by (cases "r' = r") (auto simp: op_defs Let_def split: option.splits)
  next
    case (TabChange t)
    with assms(2,3) show ?thesis by (auto simp: op_defs Let_def split: if_splits)
  next
    case (SendMessage c pc rd)
    with assms(2,3) b show ?thesis by (auto simp: op_defs Let_def split: if_splits)
  next
    case (SummarizePage pc rd)
    with assms(2,3) b show ?thesis by (auto simp: op_defs Let_def split: if_splits)
  next
    case ClearMessages
    with assms(2,3) show ?thesis by (auto simp: op_defs Let_def)
  next
    case (Resolved r' c rd)
    with assms(2,3) show ?thesis
      by (cases "r' = r") (auto simp: op_defs Let_def split: option.splits if_splits)
  next
    case (Rejected r' err)
    with assms(2,3) show ?thesis
      by (cases "r' = r") (auto simp: op_defs Let_def split: option.splits if_splits)
  qed
qed

lemma chunks_for_Cons: "chunks_for r (e # es) = chunks_for r [e] @ chunks_for r es"
  by (cases e) simp_all

text \<open>
  The same over any session, whatever else happens in between: while a request is
  suspended its accumulator is the concatenation of the chunks delivered to it so far,
  and each of its chunks makes the streaming content equal to the accumulator.
\<close>

lemma accumulator_run:
  assumes "reachable s" "pending s r = Some q" "pending (run es s) r = Some q'"
  shows "q' = q\<lparr>fullContent := fullContent q @ concat (chunks_for r es)\<rparr>"
  using assms
proof (induction es arbitrary: s q)
  case Nil
  then show ?case by simp
next
  case (Cons e es)
  have "r < controllers_created s"
    using reachable_pending_inv [OF Cons.prems(1)] Cons.prems(2)
    unfolding pending_inv_def by blast
  then have b: "r < controllers_created (step e s)"
    by (simp add: step_created)
  show ?case
  proof (cases "pending (step e s) r")
    case None
    with b have "pending (run es (step e s)) r = None" by (rule finished_stays_finished)
    with Cons.prems(3) show ?thesis by simp
  next
    case (Some q1)
    have q1: "q1 = q\<lparr>fullContent := fullContent q @ concat (chunks_for r [e])\<rparr>"
      using accumulator_step [OF Cons.prems(1,2) Some] .
    have "q' = q1\<lparr>fullContent := fullContent q1 @ concat (chunks_for r es)\<rparr>"
      using Cons.IH [OF reachable_step [OF Cons.prems(1)] Some] Cons.prems(3) by simp
    with q1 show ?thesis by (simp add: chunks_for_Cons [of r e es])
  qed
qed

lemma chunk_sets_streaming:
  assumes "reachable s" "pending s r = Some q"
  shows "streamingContent (step (Chunk r c) s) = fullContent q @ c"
  using assms(2) guard_never_fires [OF assms(1)] by (simp add: op_defs Let_def)

lemma chunk_after_settlement:
  assumes "reachable s" "pending s r = None" "settled s r = Some old"
  shows "streamingContent (step (Chunk r c) s) = old @ c \<and>
         settled (step (Chunk r c) s) r = Some (old @ c)"
  using assms(2,3) guard_never_fires [OF assms(1)] by (simp add: op_defs Let_def)

lemma settled_keeps_accumulator:
  assumes "pending s r = Some q"
  shows "settled (step (Resolved r c rd) s) r = Some (fullContent q) \<and>
         settled (step (Rejected r err) s) r = Some (fullContent q)"
  using assms by (simp add: op_defs Let_def)

text \<open>
  C3: a chunk delivered after the request's token has been aborted is to be discarded.
  The code does not discard it. After two calls of \<open>sendMessage\<close> the token of the first
  request is aborted and the ref holds the token of the second; the callback of the
  first request tests the token in the ref, not its own, so its chunk is appended to its
  accumulator and replaces the streaming content. After a tab change the ref is null, the
  test is false again, and the chunk of the request left behind on tab 1 becomes the
  streaming content shown on tab 2.
\<close>

theorem late_chunk_not_discarded:
  "0 \<in> aborted two_sends \<and>
   abortControllerRef two_sends = Some 1 \<and>
   streamingContent two_sends = [] \<and>
   streamingContent (step (Chunk 0 (js ''x'')) two_sends) = js ''x'' \<and>
   streamingContent (step (Chunk 0 (js ''x'')) two_sends) \<noteq> streamingContent two_sends \<and>
   map_option fullContent (pending (step (Chunk 0 (js ''x'')) two_sends) 0) = Some (js ''x'') \<and>
   0 \<in> aborted switched_away \<and>
   abortControllerRef switched_away = None \<and>
   tabId switched_away = Some 2 \<and>
   streamingContent switched_away = [] \<and>
   streamingContent (step (Chunk 0 (js ''x'')) switched_away) = js ''x''"
  by (simp add: two_sends_def switched_away_def eval_defs)

text \<open>
  C4: a request whose token has been aborted is never to append an assistant message nor
  to touch the streaming content. The code lets it through: the response of the first
  request, arriving while the second is in flight, is appended to the conversation and
  loading is switched off; and after a tab change, which clears the ref, the response of
  the abandoned request is appended to the list displayed for the other tab, and that
  list replaces the conversation stored for the tab of the request.
\<close>

theorem abandoned_response_applied:
  "0 \<in> aborted two_sends \<and>
   pending two_sends 1 \<noteq> None \<and>
   map content (messages two_sends) = [js ''a'', js ''b''] \<and>
   map content (messages (step (Resolved 0 (js ''late'') (at_ms 3)) two_sends)) =
     [js ''a'', js ''b'', js ''late''] \<and>
   map role (messages (step (Resolved 0 (js ''late'') (at_ms 3)) two_sends)) =
     [User, User, Assistant] \<and>
   \<not> isLoading (step (Resolved 0 (js ''late'') (at_ms 3)) two_sends) \<and>
   0 \<in> aborted switched_away \<and>
   messages switched_away = [] \<and>
   map content (messages (step (Resolved 0 (js ''late'') (at_ms 3)) switched_away)) =
     [js ''late''] \<and>
   map_option (map content \<circ> tab_messages) (tabChatStates switched_away 1) =
     Some [js ''a''] \<and>
   map_option (map content \<circ> tab_messages)
     (tabChatStates (step (Resolved 0 (js ''late'') (at_ms 3)) switched_away) 1) =
     Some [js ''late'']"
  by (simp add: two_sends_def switched_away_def eval_defs)

section \<open>Rejections of the provider\<close>




lemma rejection_stores_captured:
  assumes "pending s r = Some q" "\<not> is_abort_error err" "cap_tabId q = Some k"
  shows "messages (step (Rejected r err) s) = messages s \<and>
         tabChatStates (step (Rejected r err) s) k =
           Some \<lparr>tab_messages = (case call q of ChatCall ms p \<Rightarrow> cap_messages q
                                     | SummarizeCall pc \<Rightarrow> []),
                  tab_error = Some (failure_message (call q) err)\<rparr>"
  using assms by (simp add: op_defs saveTabState_def Let_def)

text \<open>
  C6, as stated: after a failure the message list stored for the tab equals the list
  displayed immediately before the failure. This fails: the displayed list holds the user
  message of the failed request, the stored list does not.
\<close>

theorem failed_request_store_differs:
  "map content (messages one_send) = [js ''hi''] \<and>
   map content (messages (step (Rejected 0 (ErrorObject (js ''Error'') (js ''boom''))) one_send))
     = [js ''hi''] \<and>
   tabChatStates (step (Rejected 0 (ErrorObject (js ''Error'') (js ''boom''))) one_send) 1
     = Some \<lparr>tab_messages = [], tab_error = Some (js ''boom'')\<rparr> \<and>
   map_option tab_messages
     (tabChatStates (step (Rejected 0 (ErrorObject (js ''Error'') (js ''boom''))) one_send) 1)
     \<noteq> Some (messages one_send) \<and>
   map content (messages one_summary) = [summarize_request] \<and>
   tabChatStates (step (Rejected 0 NonError) one_summary) 1
     = Some \<lparr>tab_messages = [], tab_error = Some summarize_fallback\<rparr>"
  by (simp add: one_send_def one_summary_def eval_defs)

text \<open>
  C6, amended: when a request started on tab \<open>k\<close> fails, after any number of chunks,
  with a value that is not an abort error, the displayed list is left as it was (it ends
  with the user message of the request), and the record stored for \<open>k\<close> holds the error
  string together with the list that was displayed when \<open>sendMessage\<close> was invoked,
  without the user message of the request; for \<open>summarizePage\<close> it holds the empty list.
\<close>

theorem failed_request_rolls_back_store:
  fixes s :: hook
  defines "r \<equiv> controllers_created s"
  assumes "tabId s = Some k" and "trim c \<noteq> []" and "\<not> is_abort_error err"
  shows
    "messages (step (Rejected r err)
        (run (map (Chunk r) chunks) (step (SendMessage c pc rd) s)))
       = messages s @ [new_message rd User (trim c)] \<and>
     tabChatStates (step (Rejected r err)
        (run (map (Chunk r) chunks) (step (SendMessage c pc rd) s))) k
       = Some \<lparr>tab_messages = messages s,
               tab_error = Some (case err of ErrorObject n m \<Rightarrow> m | NonError \<Rightarrow> chat_fallback)\<rparr> \<and>
     messages (step (Rejected r err)
        (run (map (Chunk r) chunks) (step (SummarizePage pageContent rd) s)))
       = [new_message rd User summarize_request] \<and>
     tabChatStates (step (Rejected r err)
        (run (map (Chunk r) chunks) (step (SummarizePage pageContent rd) s))) k
       = Some \<lparr>tab_messages = [],
               tab_error = Some (case err of ErrorObject n m \<Rightarrow> m
                                 | NonError \<Rightarrow> summarize_fallback)\<rparr>"
proof -
  let ?s1 = "step (SendMessage c pc rd) s"
  let ?q1 = "\<lparr>call = ChatCall (messages s @ [new_message rd User (trim c)]) (system_prompt pc),
              cap_tabId = Some k, cap_messages = messages s, cap_error = error s,
              fullContent = []\<rparr>"
  have p1: "pending ?s1 r = Some ?q1" and m1: "messages ?s1 = messages s @ [new_message rd User (trim c)]"
    using assms by (simp_all add: op_defs Let_def)
  from chunks_keep_request [OF p1, of chunks] m1 obtain fc where
    c1: "pending (run (map (Chunk r) chunks) ?s1) r = Some (?q1\<lparr>fullContent := fc\<rparr>)"
      "messages (run (map (Chunk r) chunks) ?s1) = messages s @ [new_message rd User (trim c)]"
    by auto
  let ?s2 = "step (SummarizePage pageContent rd) s"
  let ?q2 = "\<lparr>call = SummarizeCall pageContent,
              cap_tabId = Some k, cap_messages = messages s, cap_error = error s,
              fullContent = []\<rparr>"
  have p2: "pending ?s2 r = Some ?q2" and m2: "messages ?s2 = [new_message rd User summarize_request]"
    using assms by (simp_all add: op_defs Let_def)
  from chunks_keep_request [OF p2, of chunks] m2 obtain fc' where
    c2: "pending (run (map (Chunk r) chunks) ?s2) r = Some (?q2\<lparr>fullContent := fc'\<rparr>)"
      "messages (run (map (Chunk r) chunks) ?s2) = [new_message rd User summarize_request]"
    by auto
  from c1 c2 assms(4) show ?thesis
    by (cases err) (simp_all add: op_defs failure_message_def saveTabState_def Let_def)
qed

theorem failed_request_rolls_back_store_witness:
  "tabId (mount Map.empty (Some 1)) = Some 1 \<and> trim (js ''hi'') \<noteq> [] \<and>
   \<not> is_abort_error (ErrorObject (js ''Error'') (js ''boom'')) \<and>
   tabChatStates (step (Rejected 0 (ErrorObject (js ''Error'') (js ''boom'')))
      (run (map (Chunk 0) [js ''par'', js ''tial''])
        (step (SendMessage (js ''hi'') None (at_ms 1)) (mount Map.empty (Some 1))))) 1
     = Some \<lparr>tab_messages = [], tab_error = Some (js ''boom'')\<rparr> \<and>
   map content (messages (step (Rejected 0 (ErrorObject (js ''Error'') (js ''boom'')))
      (run (map (Chunk 0) [js ''par'', js ''tial''])
        (step (SendMessage (js ''hi'') None (at_ms 1)) (mount Map.empty (Some 1))))))
     = [js ''hi'']"
proof -
  have h1: "tabId (mount Map.empty (Some 1)) = Some 1" by (simp add: mount_def)
  have h2: "trim (js ''hi'') \<noteq> []" by (simp add: eval_defs)
  have h3: "\<not> is_abort_error (ErrorObject (js ''Error'') (js ''boom''))"
    by (simp add: is_abort_error_def js_def)
  have t: "trim (js ''hi'') = js ''hi''" by (simp add: eval_defs)
  have e: "messages (mount Map.empty (Some 1)) = []" "controllers_created (mount Map.empty (Some 1)) = 0"
    by (simp_all add: eval_defs)
  from failed_request_rolls_back_store [OF h1 h2 h3, of "[js ''par'', js ''tial'']" None "at_ms 1"]
    h1 h2 h3 t e show ?thesis
    by (simp add: new_message_def)
qed

section \<open>Tabs\<close>

text \<open>
  Every write to the map goes to the tab of the closure that makes it.
\<close>

lemma saveTabState_other:
  "t \<noteq> Some k \<Longrightarrow> saveTabState t ms err m k = m k"
  by (cases t) (simp_all add: saveTabState_def)

lemma step_frame:
  "closure_tab e s \<noteq> Some k \<Longrightarrow> tabChatStates (step e s) k = tabChatStates s k"
  by (cases e) (auto simp: op_defs saveTabState_other Let_def split: option.splits)

lemma step_frame_null:
  "closure_tab e s = None \<Longrightarrow> tabChatStates (step e s) = tabChatStates s"
  by (rule ext) (simp add: step_frame)

text \<open>
  At its invocation, each of the three operations leaves the record of every tab other
  than the bound one unchanged, and leaves the map unchanged when the hook is bound to the
  null tab.
\<close>

lemma invocation_frame:
  assumes "invokes_operation e" "tabId s \<noteq> Some k"
  shows "tabChatStates (step e s) k = tabChatStates s k"
  using assms step_frame [of e s k] by (cases e) simp_all

lemma invocation_frame_null:
  assumes "invokes_operation e" "tabId s = None"
  shows "tabChatStates (step e s) = tabChatStates s"
  using assms step_frame_null [of e s] by (cases e) simp_all

lemma no_request_of_mount: "no_request_of k (mount m t)"
  by (simp add: no_request_of_def mount_def)

lemma closure_tab_quiet:
  assumes "no_request_of k s" "invokes_operation e \<longrightarrow> tabId s \<noteq> Some k"
  shows "closure_tab e s \<noteq> Some k"
  using assms by (cases e) (auto simp: no_request_of_def split: option.splits)

lemma no_request_of_step:
  assumes "no_request_of k s" "invokes_operation e \<longrightarrow> tabId s \<noteq> Some k"
  shows "no_request_of k (step e s)"
proof (cases e)
  case (TabChange t)
  with assms(1) show ?thesis by (simp add: no_request_of_def op_defs Let_def)
next
  case (SendMessage c pc rd)
  with assms show ?thesis by (simp add: no_request_of_def op_defs Let_def)
next
  case (SummarizePage pc rd)
  with assms show ?thesis by (simp add: no_request_of_def op_defs Let_def)
next
  case ClearMessages
  with assms(1) show ?thesis by (simp add: no_request_of_def op_defs)
next
  case (Chunk r c)
  with assms(1) show ?thesis
    by (auto simp: no_request_of_def op_defs Let_def split: option.splits if_splits)
next
  case (Resolved r c rd)
  with assms(1) show ?thesis
    by (auto simp: no_request_of_def op_defs Let_def split: option.splits if_splits)
next
  case (Rejected r err)
  with assms(1) show ?thesis
    by (auto simp: no_request_of_def op_defs Let_def split: option.splits if_splits)
qed

text \<open>
  Over a whole session, with every late callback included: the record of a tab changes
  only if an operation was invoked while the hook was bound to that tab.
\<close>

lemma untouched_tab_run:
  "no_request_of k s \<Longrightarrow> never_bound_to k es s \<Longrightarrow>
   tabChatStates (run es s) k = tabChatStates s k"
proof (induction es arbitrary: s)
  case Nil
  then show ?case by simp
next
  case (Cons e es)
  then have q: "invokes_operation e \<longrightarrow> tabId s \<noteq> Some k" and n: "never_bound_to k es (step e s)"
    by simp_all
  have "tabChatStates (run es (step e s)) k = tabChatStates (step e s) k"
    using Cons.IH [OF no_request_of_step [OF Cons.prems(1) q] n] .
  also have "\<dots> = tabChatStates s k"
    using closure_tab_quiet [OF Cons.prems(1) q] by (rule step_frame)
  finally show ?case by simp
qed

text \<open>
  C1: whatever a hook bound to tab \<open>t\<close> does, the record stored for every other tab is to
  stay unchanged, and a hook bound to the null tab is never to modify the map. The code
  breaks both once a request outlives a tab change. A request is started on tab 1; the
  hook moves to tab 2, where a conversation takes place; then the response of the first
  request arrives. Its continuation was to stop at the test of the cancellation token,
  but the test reads the ref and lets it through: it appends the late message to the list
  displayed for tab 2 and stores that list under tab 1, the tab of its closure. The hook
  is bound to tab 2 and the record of tab 1 is rewritten with the conversation of tab 2.
  In the same way, after a change to the null tab, the late response or a late failure
  modifies the map while the hook is bound to null.
\<close>

theorem late_response_rewrites_other_tab:
  "tabId bound_elsewhere = Some 2 \<and>
   map content (messages bound_elsewhere) = [js ''x'', js ''y''] \<and>
   map_option (map content \<circ> tab_messages) (tabChatStates bound_elsewhere 1) =
     Some [js ''a''] \<and>
   map_option (map content \<circ> tab_messages)
     (tabChatStates (step (Resolved 0 (js ''late'') (at_ms 4)) bound_elsewhere) 1) =
     Some [js ''x'', js ''y'', js ''late''] \<and>
   tabChatStates (step (Resolved 0 (js ''late'') (at_ms 4)) bound_elsewhere) 1 \<noteq>
     tabChatStates bound_elsewhere 1 \<and>
   tabId (step (Resolved 0 (js ''late'') (at_ms 4)) bound_elsewhere) = Some 2 \<and>
   tabId bound_to_null = None \<and>
   map_option (map content \<circ> tab_messages) (tabChatStates bound_to_null 1) =
     Some [js ''a''] \<and>
   map_option (map content \<circ> tab_messages)
     (tabChatStates (step (Resolved 0 (js ''late'') (at_ms 4)) bound_to_null) 1) =
     Some [js ''late''] \<and>
   tabChatStates (step (Resolved 0 (js ''late'') (at_ms 4)) bound_to_null) \<noteq>
     tabChatStates bound_to_null \<and>
   tabChatStates (step (Rejected 0 NonError) bound_to_null) \<noteq> tabChatStates bound_to_null"
proof -
  have 1: "tabChatStates (step (Resolved 0 (js ''late'') (at_ms 4)) bound_to_null) 1 \<noteq>
     tabChatStates bound_to_null 1"
    by (simp add: bound_to_null_def eval_defs)
  have 2: "tabChatStates (step (Rejected 0 NonError) bound_to_null) 1 \<noteq>
     tabChatStates bound_to_null 1"
    by (simp add: bound_to_null_def eval_defs)
  have 3: "tabId bound_elsewhere = Some 2 \<and>
   map content (messages bound_elsewhere) = [js ''x'', js ''y''] \<and>
   map_option (map content \<circ> tab_messages) (tabChatStates bound_elsewhere 1) =
     Some [js ''a''] \<and>
   map_option (map content \<circ> tab_messages)
     (tabChatStates (step (Resolved 0 (js ''late'') (at_ms 4)) bound_elsewhere) 1) =
     Some [js ''x'', js ''y'', js ''late''] \<and>
   tabChatStates (step (Resolved 0 (js ''late'') (at_ms 4)) bound_elsewhere) 1 \<noteq>
     tabChatStates bound_elsewhere 1 \<and>
   tabId (step (Resolved 0 (js ''late'') (at_ms 4)) bound_elsewhere) = Some 2"
    by (simp add: bound_elsewhere_def eval_defs)
  have 4: "tabId bound_to_null = None \<and>
   map_option (map content \<circ> tab_messages) (tabChatStates bound_to_null 1) =
     Some [js ''a''] \<and>
   map_option (map content \<circ> tab_messages)
     (tabChatStates (step (Resolved 0 (js ''late'') (at_ms 4)) bound_to_null) 1) =
     Some [js ''late'']"
    by (simp add: bound_to_null_def eval_defs)
  from 1 2 3 4 show ?thesis by metis
qed

text \<open>
  C8: when the bound tab changes to \<open>t\<close>, the displayed messages and error become those of
  the record stored for \<open>t\<close>, or the empty list and null when \<open>t\<close> is null or has no
  record; the streaming content becomes empty and loading false.
\<close>

theorem tab_change_loads_state:
  assumes "t \<noteq> tabId s"
  shows "tabId (step (TabChange t) s) = t \<and>
         messages (step (TabChange t) s) =
           (case t of None \<Rightarrow> []
            | Some k \<Rightarrow> (case tabChatStates s k of None \<Rightarrow> [] | Some st \<Rightarrow> tab_messages st)) \<and>
         error (step (TabChange t) s) =
           (case t of None \<Rightarrow> None
            | Some k \<Rightarrow> (case tabChatStates s k of None \<Rightarrow> None | Some st \<Rightarrow> tab_error st)) \<and>
         streamingContent (step (TabChange t) s) = [] \<and>
         \<not> isLoading (step (TabChange t) s) \<and>
         tabChatStates (step (TabChange t) s) = tabChatStates s"
  using assms
  by (simp add: op_defs getTabState_def empty_state_def Let_def split: option.splits)

theorem tab_change_loads_state_witness:
  "Some 1 \<noteq> tabId switched_away \<and>
   map content (messages (step (TabChange (Some 1)) switched_away)) = [js ''a''] \<and>
   error (step (TabChange (Some 1)) switched_away) = None \<and>
   streamingContent (step (TabChange (Some 1)) switched_away) = [] \<and>
   \<not> isLoading (step (TabChange (Some 1)) switched_away)"
proof -
  have h: "Some 1 \<noteq> tabId switched_away" by (simp add: switched_away_def eval_defs)
  have m: "tabChatStates switched_away 1 =
     Some \<lparr>tab_messages = [new_message (at_ms 1) User (js ''a'')], tab_error = None\<rparr>"
    by (simp add: switched_away_def eval_defs)
  from tab_change_loads_state [OF h] h m show ?thesis
    by (simp add: new_message_def)
qed

text \<open>
  C9: for content that is empty or made of whitespace only, \<open>sendMessage\<close> leaves the
  whole state as it is: no controller is aborted or created, no request is added, and
  the messages, the error, loading, the streaming content and the map are unchanged.
\<close>

theorem blank_send_noop:
  assumes "\<forall>c \<in> set content'. isWhiteSpace c"
  shows "step (SendMessage content' pageContext rd) s = s"
  using assms by (simp add: sendMessage_def trim_empty_iff)

theorem blank_send_noop_witness:
  "isWhiteSpace 0x20 \<and> isWhiteSpace 0x09 \<and> isWhiteSpace 0x0A \<and> isWhiteSpace 0x3000 \<and>
   pending one_send 0 \<noteq> None \<and>
   step (SendMessage [0x20, 0x09, 0x0A, 0x3000] None (at_ms 2)) one_send = one_send \<and>
   step (SendMessage [] None (at_ms 2)) one_send = one_send"
proof -
  have h: "\<forall>c \<in> set [0x20, 0x09, 0x0A, 0x3000]. isWhiteSpace c"
    by (simp add: isWhiteSpace_def)
  have p: "pending one_send 0 \<noteq> None" by (simp add: one_send_def eval_defs)
  from blank_send_noop [OF h, of None "at_ms 2" one_send]
    blank_send_noop [of "[]" None "at_ms 2" one_send] h p
  show ?thesis by simp
qed

end
